theory Spec2Isabelle
  imports Complex_Main
begin

section \<open>JavaScript values used by the gate algebra\<close>

text \<open>
  The quantum module works on JavaScript strings (\<^verbatim>\<open>'ZERO'\<close>, \<^verbatim>\<open>'X'\<close>, ...),
  on \<^verbatim>\<open>null\<close> (an empty gate slot) and, when an array is read out of range,
  on \<^verbatim>\<open>undefined\<close>. These are the values of the model: a state or a gate is any
  of them, not only one of the documented symbols. Strings are modelled as HOL
  strings; the literals of the source are ASCII.
\<close>

datatype jsval = JNull | JUndefined | JStr string

text \<open>\<^verbatim>\<open>!v\<close> and \<^verbatim>\<open>Boolean(v)\<close>: null, undefined and the empty string are falsy.\<close>

fun truthy :: "jsval \<Rightarrow> bool" where
  "truthy JNull = False"
| "truthy JUndefined = False"
| "truthy (JStr s) = (s \<noteq> [])"

text \<open>The property key a value is converted to when it indexes an object.\<close>

fun propertyKey :: "jsval \<Rightarrow> string" where
  "propertyKey JNull = ''null''"
| "propertyKey JUndefined = ''undefined''"
| "propertyKey (JStr s) = s"

text \<open>
  An object literal is the association list of its own properties, in source order.
  \<open>getProp\<close> is \<^verbatim>\<open>obj[key]\<close>: a key the literal does not have reads as
  \<^verbatim>\<open>undefined\<close>. Properties inherited from \<^verbatim>\<open>Object.prototype\<close> (keys such as
  \<^verbatim>\<open>constructor\<close>) are outside this model; none of their values has a property
  named after one of the five states, so for those states the lookups below agree
  with the run-time ones.
\<close>

definition getProp :: "(string \<times> jsval) list \<Rightarrow> jsval \<Rightarrow> jsval" where
  "getProp obj key = (case map_of obj (propertyKey key) of None \<Rightarrow> JUndefined | Some v \<Rightarrow> v)"

text \<open>\<^verbatim>\<open>a ?? b\<close>\<close>

definition nullish :: "jsval \<Rightarrow> jsval \<Rightarrow> jsval" where
  "nullish a b = (if a = JNull \<or> a = JUndefined then b else a)"

abbreviation ZERO :: jsval where "ZERO \<equiv> JStr ''ZERO''"
abbreviation ONE :: jsval where "ONE \<equiv> JStr ''ONE''"
abbreviation PLUS :: jsval where "PLUS \<equiv> JStr ''PLUS''"
abbreviation MINUS :: jsval where "MINUS \<equiv> JStr ''MINUS''"
abbreviation DECOHERED :: jsval where "DECOHERED \<equiv> JStr ''DECOHERED''"
abbreviation NOISE :: jsval where "NOISE \<equiv> JStr ''NOISE''"

text \<open>The gate values a populated slot can hold.\<close>

abbreviation populated :: "jsval set" where
  "populated \<equiv> {JStr ''X'', JStr ''H'', JStr ''Z'', NOISE}"

section \<open>The shared quantum state logic\<close>

subsection \<open>Transition table and gate application\<close>

definition gateTable :: "(string \<times> (string \<times> jsval) list) list" where
  "gateTable =
    [ (''X'', [(''ZERO'', ONE), (''ONE'', ZERO), (''PLUS'', PLUS), (''MINUS'', MINUS)]),
      (''H'', [(''ZERO'', PLUS), (''ONE'', MINUS), (''PLUS'', ZERO), (''MINUS'', ONE)]),
      (''Z'', [(''ZERO'', ZERO), (''ONE'', ONE), (''PLUS'', MINUS), (''MINUS'', PLUS)]),
      (''NOISE'', [(''ZERO'', DECOHERED), (''ONE'', DECOHERED),
                   (''PLUS'', DECOHERED), (''MINUS'', DECOHERED)]) ]"

text \<open>
  \<^verbatim>\<open>gateTable[gate]?.[state]\<close>: a gate without a row short-circuits to
  \<^verbatim>\<open>undefined\<close>.
\<close>

definition tableLookup :: "(string \<times> (string \<times> jsval) list) list \<Rightarrow> jsval \<Rightarrow> jsval \<Rightarrow> jsval" where
  "tableLookup tbl gate state =
     (case map_of tbl (propertyKey gate) of
        None \<Rightarrow> JUndefined
      | Some row \<Rightarrow> getProp row state)"

definition applyGate :: "jsval \<Rightarrow> jsval \<Rightarrow> jsval" where
  "applyGate state gate =
     (if \<not> truthy gate then state
      else if state = DECOHERED then DECOHERED
      else nullish (tableLookup gateTable gate state) state)"

subsection \<open>Trajectories\<close>

text \<open>
  The \<^verbatim>\<open>for (const gate of gates)\<close> loop of \<^verbatim>\<open>buildStepStates\<close>: the running
  state and the array that each step pushes onto.
\<close>

fun stepLoop :: "jsval \<Rightarrow> jsval list \<Rightarrow> jsval list \<Rightarrow> jsval list" where
  "stepLoop current [] states = states"
| "stepLoop current (gate # gates) states =
     (let current' = applyGate current gate
      in stepLoop current' gates (states @ [current']))"

definition buildStepStates :: "jsval \<Rightarrow> jsval list \<Rightarrow> jsval list" where
  "buildStepStates initialState gates =
     (let states = [if initialState = ONE then ONE else ZERO];
          current = states ! 0
      in stepLoop current gates states)"

subsection \<open>Randomness and measurement\<close>

text \<open>
  \<^verbatim>\<open>Math.random()\<close> is the only effect of the module. The generator is a
  sequence of draws together with the number of draws taken so far; a call returns
  the next draw and the advanced generator.
\<close>

record rng =
  source :: "nat \<Rightarrow> real"
  drawn :: nat

definition Math_random :: "rng \<Rightarrow> real \<times> rng" where
  "Math_random r = (source r (drawn r), r\<lparr>drawn := Suc (drawn r)\<rparr>)"

text \<open>The \<^verbatim>\<open>switch\<close> compares with strict equality, case by case in source order.\<close>

definition measureState :: "jsval \<Rightarrow> rng \<Rightarrow> string \<times> rng" where
  "measureState state r =
     (if state = ZERO then (''blue'', r)
      else if state = ONE then (''red'', r)
      else if state = PLUS \<or> state = MINUS then
        (let (x, r') = Math_random r in (if x < 1 / 2 then ''blue'' else ''red'', r'))
      else if state = DECOHERED then (''yellow'', r)
      else (''blue'', r))"

subsection \<open>Random circuits\<close>

definition availableGates :: "jsval list" where
  "availableGates = [JStr ''X'', JStr ''H'', JStr ''Z'', JNull, JNull]"

text \<open>\<^verbatim>\<open>arr[i]\<close> for a number \<open>i\<close>: an index outside the array reads \<^verbatim>\<open>undefined\<close>.\<close>

definition arrayGet :: "jsval list \<Rightarrow> int \<Rightarrow> jsval" where
  "arrayGet arr i = (if 0 \<le> i \<and> i < int (length arr) then arr ! nat i else JUndefined)"

text \<open>
  The arrow function given to \<^verbatim>\<open>Array.from\<close>:
  \<^verbatim>\<open>availableGates[Math.floor(Math.random() * availableGates.length)]\<close>.
  The product is taken over the reals. For a draw below 1 the exact product is below
  5 and so is the rounded double (the largest double below 1 times 5 rounds to the
  double just below 5), hence the index stays within the array either way.
\<close>

definition randomGate :: "rng \<Rightarrow> jsval \<times> rng" where
  "randomGate r =
     (let (x, r') = Math_random r
      in (arrayGet availableGates \<lfloor>x * real (length availableGates)\<rfloor>, r'))"

text \<open>
  \<^verbatim>\<open>Array.from({ length: numGates }, f)\<close> calls \<open>f\<close> once per index, from index 0
  upwards, so the first element takes the first draw.
\<close>

fun generateRandomCircuit :: "nat \<Rightarrow> rng \<Rightarrow> jsval list \<times> rng" where
  "generateRandomCircuit 0 r = ([], r)"
| "generateRandomCircuit (Suc n) r =
     (let (g, r') = randomGate r;
          (gs, r'') = generateRandomCircuit n r'
      in (g # gs, r''))"

subsection \<open>Parsing and formatting gate strings\<close>

definition validGates :: "(string \<times> jsval) list" where
  "validGates = [(''X'', JStr ''X''), (''H'', JStr ''H''), (''Z'', JStr ''Z''), (''N'', NOISE)]"

text \<open>
  \<^verbatim>\<open>toUpperCase\<close> on the ASCII letters; every other character is left as it is
  (the case mappings of characters beyond ASCII are not modelled).
\<close>

definition toUpperChar :: "char \<Rightarrow> char" where
  "toUpperChar c =
     (case map_of (zip ''abcdefghijklmnopqrstuvwxyz'' ''ABCDEFGHIJKLMNOPQRSTUVWXYZ'') c of
        None \<Rightarrow> c
      | Some u \<Rightarrow> u)"

definition toUpperCase :: "string \<Rightarrow> string" where
  "toUpperCase s = map toUpperChar s"

text \<open>The string that \<^verbatim>\<open>(str || '')\<close> evaluates to.\<close>

fun orEmpty :: "jsval \<Rightarrow> string" where
  "orEmpty (JStr s) = s"
| "orEmpty JNull = []"
| "orEmpty JUndefined = []"

text \<open>The \<^verbatim>\<open>for (const ch of ...)\<close> loop of \<^verbatim>\<open>parseGateString\<close>.\<close>

fun parseLoop :: "string \<Rightarrow> nat \<Rightarrow> jsval list \<Rightarrow> jsval list" where
  "parseLoop [] numGates gates = gates"
| "parseLoop (ch # rest) numGates gates =
     (if truthy (getProp validGates (JStr [ch])) \<and> length gates < numGates
      then parseLoop rest numGates (gates @ [getProp validGates (JStr [ch])])
      else parseLoop rest numGates gates)"

text \<open>\<^verbatim>\<open>while (gates.length < numGates) gates.push(null)\<close>\<close>

function padLoop :: "jsval list \<Rightarrow> nat \<Rightarrow> jsval list" where
  "padLoop gates numGates =
     (if length gates < numGates then padLoop (gates @ [JNull]) numGates else gates)"
  by pat_completeness auto
termination
  by (relation "measure (\<lambda>(gates, numGates). numGates - length gates)") auto

definition parseGateString :: "jsval \<Rightarrow> nat \<Rightarrow> jsval list" where
  "parseGateString str numGates =
     padLoop (parseLoop (toUpperCase (orEmpty str)) numGates []) numGates"

text \<open>\<^verbatim>\<open>join('')\<close> writes null and undefined elements as the empty string.\<close>

fun joinItem :: "jsval \<Rightarrow> string" where
  "joinItem (JStr s) = s"
| "joinItem JNull = []"
| "joinItem JUndefined = []"

definition gatesToString :: "jsval list \<Rightarrow> string" where
  "gatesToString gates =
     concat (map joinItem (map (\<lambda>g. if g = NOISE then JStr ''N'' else g) (filter truthy gates)))"

subsection \<open>Columns and the fixture grid\<close>

record columnData =
  gates :: "jsval list"
  states :: "jsval list"
  finalState :: jsval
  measurement :: string

definition buildColumnData :: "jsval list \<Rightarrow> rng \<Rightarrow> columnData \<times> rng" where
  "buildColumnData gs r =
     (let sts = buildStepStates ZERO gs;
          fin = sts ! (length sts - 1);
          (m, r') = measureState fin r
      in (\<lparr>gates = gs, states = sts, finalState = fin, measurement = m\<rparr>, r'))"

text \<open>
  The two nested \<^verbatim>\<open>for\<close> loops of \<^verbatim>\<open>generateFixtureGrid(size, numGates)\<close>;
  both count up to the grid size \<open>sz\<close> (the source's \<^verbatim>\<open>size\<close>).
\<close>

function colLoop :: "nat \<Rightarrow> nat \<Rightarrow> nat \<Rightarrow> columnData list \<Rightarrow> rng \<Rightarrow> columnData list \<times> rng" where
  "colLoop col sz numGates rowData r =
     (if col < sz then
        (let (gs, r1) = generateRandomCircuit numGates r;
             (cd, r2) = buildColumnData gs r1
         in colLoop (Suc col) sz numGates (rowData @ [cd]) r2)
      else (rowData, r))"
  by pat_completeness auto
termination
  by (relation "measure (\<lambda>(col, sz, numGates, rowData, r). sz - col)") auto

function rowLoop :: "nat \<Rightarrow> nat \<Rightarrow> nat \<Rightarrow> columnData list list \<Rightarrow> rng \<Rightarrow> columnData list list \<times> rng" where
  "rowLoop row sz numGates grid r =
     (if row < sz then
        (let (rowData, r') = colLoop 0 sz numGates [] r
         in rowLoop (Suc row) sz numGates (grid @ [rowData]) r')
      else (grid, r))"
  by pat_completeness auto
termination
  by (relation "measure (\<lambda>(row, sz, numGates, grid, r). sz - row)") auto

definition generateFixtureGrid :: "nat \<Rightarrow> nat \<Rightarrow> rng \<Rightarrow> columnData list list \<times> rng" where
  "generateFixtureGrid sz numGates r = rowLoop 0 sz numGates [] r"

text \<open>
  The shape of a finished row, as the row loop keeps it for every row pushed so far:
  \<open>sz\<close> cells, each with \<open>n\<close> gate slots.
\<close>

definition cellRow :: "nat \<Rightarrow> nat \<Rightarrow> columnData list \<Rightarrow> bool" where
  "cellRow sz n rowData = (length rowData = sz \<and> list_all (\<lambda>cd. length (gates cd) = n) rowData)"

section \<open>The circuit view's own copy\<close>

text \<open>
  The application component carries its own \<^verbatim>\<open>applyGate\<close>, with the table as a
  local constant, and its own \<^verbatim>\<open>buildStepStates\<close>, which pushes the running state
  once more after the loop (the detector position).
\<close>

definition App_table :: "(string \<times> (string \<times> jsval) list) list" where
  "App_table =
    [ (''X'', [(''ZERO'', ONE), (''ONE'', ZERO), (''PLUS'', PLUS), (''MINUS'', MINUS)]),
      (''H'', [(''ZERO'', PLUS), (''ONE'', MINUS), (''PLUS'', ZERO), (''MINUS'', ONE)]),
      (''Z'', [(''ZERO'', ZERO), (''ONE'', ONE), (''PLUS'', MINUS), (''MINUS'', PLUS)]),
      (''NOISE'', [(''ZERO'', DECOHERED), (''ONE'', DECOHERED),
                   (''PLUS'', DECOHERED), (''MINUS'', DECOHERED)]) ]"

definition App_applyGate :: "jsval \<Rightarrow> jsval \<Rightarrow> jsval" where
  "App_applyGate state gate =
     (if \<not> truthy gate then state
      else if state = DECOHERED then DECOHERED
      else nullish (tableLookup App_table gate state) state)"

fun App_stepLoop :: "jsval \<Rightarrow> jsval list \<Rightarrow> jsval list \<Rightarrow> jsval \<times> jsval list" where
  "App_stepLoop current [] sts = (current, sts)"
| "App_stepLoop current (gate # gs) sts =
     (let current' = App_applyGate current gate
      in App_stepLoop current' gs (sts @ [current']))"

definition App_buildStepStates :: "jsval \<Rightarrow> jsval list \<Rightarrow> jsval list" where
  "App_buildStepStates initialState gs =
     (let sts = [if initialState = ONE then ONE else ZERO];
          (current, sts') = App_stepLoop (sts ! 0) gs sts
      in sts' @ [current])"

section \<open>Properties of gate application\<close>

lemma applyGate_X [simp]:
  "applyGate ZERO (JStr ''X'') = ONE" "applyGate ONE (JStr ''X'') = ZERO"
  "applyGate PLUS (JStr ''X'') = PLUS" "applyGate MINUS (JStr ''X'') = MINUS"
  by (simp_all add: applyGate_def tableLookup_def gateTable_def getProp_def nullish_def)

lemma applyGate_H [simp]:
  "applyGate ZERO (JStr ''H'') = PLUS" "applyGate ONE (JStr ''H'') = MINUS"
  "applyGate PLUS (JStr ''H'') = ZERO" "applyGate MINUS (JStr ''H'') = ONE"
  by (simp_all add: applyGate_def tableLookup_def gateTable_def getProp_def nullish_def)

lemma applyGate_Z [simp]:
  "applyGate ZERO (JStr ''Z'') = ZERO" "applyGate ONE (JStr ''Z'') = ONE"
  "applyGate PLUS (JStr ''Z'') = MINUS" "applyGate MINUS (JStr ''Z'') = PLUS"
  by (simp_all add: applyGate_def tableLookup_def gateTable_def getProp_def nullish_def)

lemma applyGate_NOISE [simp]:
  "applyGate ZERO NOISE = DECOHERED" "applyGate ONE NOISE = DECOHERED"
  "applyGate PLUS NOISE = DECOHERED" "applyGate MINUS NOISE = DECOHERED"
  by (simp_all add: applyGate_def tableLookup_def gateTable_def getProp_def nullish_def)

lemma applyGate_falsy [simp]: "\<not> truthy gate \<Longrightarrow> applyGate state gate = state"
  by (simp add: applyGate_def)

lemma applyGate_DECOHERED [simp]: "applyGate DECOHERED gate = DECOHERED"
  by (simp add: applyGate_def)

text \<open>
  C1. Involution law: each of the gates X, H and Z, applied twice to one of the
  states ZERO, ONE, PLUS, MINUS, gives the state back.
\<close>

theorem applyGate_involution:
  assumes "g \<in> {JStr ''X'', JStr ''H'', JStr ''Z''}"
    and "s \<in> {ZERO, ONE, PLUS, MINUS}"
  shows "applyGate (applyGate s g) g = s"
  using assms by auto

theorem applyGate_involution_witness:
  "JStr ''H'' \<in> {JStr ''X'', JStr ''H'', JStr ''Z''} \<and> PLUS \<in> {ZERO, ONE, PLUS, MINUS}
   \<and> applyGate PLUS (JStr ''H'') = ZERO
   \<and> applyGate (applyGate PLUS (JStr ''H'')) (JStr ''H'') = PLUS"
  using applyGate_involution [of "JStr ''H''" PLUS] by simp

section \<open>Trajectories\<close>

lemma stepLoop_append: "stepLoop c gs sts = sts @ stepLoop c gs []"
proof (induction gs arbitrary: c sts)
  case Nil
  show ?case by simp
next
  case (Cons g gs)
  have "stepLoop c (g # gs) sts = stepLoop (applyGate c g) gs (sts @ [applyGate c g])"
    by (simp add: Let_def)
  also have "\<dots> = (sts @ [applyGate c g]) @ stepLoop (applyGate c g) gs []"
    by (rule Cons.IH)
  also have "\<dots> = sts @ stepLoop (applyGate c g) gs [applyGate c g]"
    using Cons.IH [of "applyGate c g" "[applyGate c g]"] by simp
  finally show ?case by (simp add: Let_def)
qed

lemma stepLoop_Cons: "stepLoop c (g # gs) [] = applyGate c g # stepLoop (applyGate c g) gs []"
  using stepLoop_append [of "applyGate c g" gs "[applyGate c g]"] by (simp add: Let_def)

lemma length_stepLoop: "length (stepLoop c gs sts) = length sts + length gs"
  by (induction gs arbitrary: c sts) (simp_all add: Let_def)

lemma buildStepStates_unfold:
  "buildStepStates s0 gs = (if s0 = ONE then ONE else ZERO) # stepLoop (if s0 = ONE then ONE else ZERO) gs []"
  using stepLoop_append [of "if s0 = ONE then ONE else ZERO" gs "[if s0 = ONE then ONE else ZERO]"]
  by (simp add: buildStepStates_def Let_def)

lemma length_buildStepStates: "length (buildStepStates s0 gs) = length gs + 1"
  by (simp add: buildStepStates_def Let_def length_stepLoop)

lemma stepLoop_DECOHERED: "x \<in> set (stepLoop DECOHERED gs []) \<Longrightarrow> x = DECOHERED"
proof (induction gs)
  case Nil
  then show ?case by simp
next
  case (Cons g gs)
  then show ?case by (auto simp: stepLoop_Cons simp del: stepLoop.simps)
qed

lemma trajectory_absorbing:
  "i < j \<Longrightarrow> j < length (c # stepLoop c gs []) \<Longrightarrow> (c # stepLoop c gs []) ! i = DECOHERED
   \<Longrightarrow> (c # stepLoop c gs []) ! j = DECOHERED"
proof (induction gs arbitrary: c i j)
  case Nil
  then show ?case by simp
next
  case (Cons g gs)
  obtain j' where j: "j = Suc j'" using Cons.prems(1) by (cases j) auto
  show ?case
  proof (cases i)
    case 0
    then have c: "c = DECOHERED" using Cons.prems(3) by simp
    have "j' < length (stepLoop DECOHERED (g # gs) [])" using Cons.prems(2) j c by simp
    then have "stepLoop DECOHERED (g # gs) [] ! j' \<in> set (stepLoop DECOHERED (g # gs) [])"
      by (rule nth_mem)
    then have "stepLoop DECOHERED (g # gs) [] ! j' = DECOHERED" by (rule stepLoop_DECOHERED)
    then show ?thesis using j c by simp
  next
    case (Suc i')
    have "(applyGate c g # stepLoop (applyGate c g) gs []) ! j' = DECOHERED"
    proof (rule Cons.IH)
      show "i' < j'" using Cons.prems(1) j Suc by simp
      show "j' < length (applyGate c g # stepLoop (applyGate c g) gs [])"
        using Cons.prems(2) j by (simp add: stepLoop_Cons del: stepLoop.simps)
      show "(applyGate c g # stepLoop (applyGate c g) gs []) ! i' = DECOHERED"
        using Cons.prems(3) Suc by (simp add: stepLoop_Cons del: stepLoop.simps)
    qed
    then show ?thesis using j by (simp add: stepLoop_Cons del: stepLoop.simps)
  qed
qed

lemma buildStepStates_hd: "buildStepStates s0 seq ! 0 = (if s0 = ONE then ONE else ZERO)"
proof -
  have "stepLoop c gs sts ! 0 = sts ! 0" if "sts \<noteq> []" for c gs sts
    using that by (induction gs arbitrary: c sts) (simp_all add: Let_def nth_append)
  then show ?thesis by (simp add: buildStepStates_def Let_def)
qed

lemma trajectory_step:
  "i < length gs \<Longrightarrow>
   (c # stepLoop c gs []) ! Suc i = applyGate ((c # stepLoop c gs []) ! i) (gs ! i)"
proof (induction gs arbitrary: c i)
  case Nil
  then show ?case by simp
next
  case (Cons g gs)
  show ?case
  proof (cases i)
    case 0
    then show ?thesis by (simp add: stepLoop_Cons del: stepLoop.simps)
  next
    case (Suc i')
    then have "i' < length gs" using Cons.prems by simp
    then have "(applyGate c g # stepLoop (applyGate c g) gs []) ! Suc i'
        = applyGate ((applyGate c g # stepLoop (applyGate c g) gs []) ! i') (gs ! i')"
      by (rule Cons.IH)
    then show ?thesis using Suc by (simp add: stepLoop_Cons del: stepLoop.simps)
  qed
qed

text \<open>
  C3. Trajectory length: for every initial state and every gate sequence, the
  trajectory of the shared module's \<open>buildStepStates\<close> has one element more than the
  sequence. Element 0 is the initial state as the builder seeds it (ONE for ONE, ZERO
  for anything else), and element \<open>i + 1\<close> is \<open>applyGate\<close> of element \<open>i\<close> and
  gate \<open>i\<close>.
\<close>

theorem trajectory_length:
  "length (buildStepStates s0 seq) = length seq + 1
   \<and> buildStepStates s0 seq ! 0 = (if s0 = ONE then ONE else ZERO)
   \<and> (i < length seq \<longrightarrow>
        buildStepStates s0 seq ! (i + 1) = applyGate (buildStepStates s0 seq ! i) (seq ! i))"
proof -
  have "buildStepStates s0 seq ! (i + 1) = applyGate (buildStepStates s0 seq ! i) (seq ! i)"
    if "i < length seq"
    using that unfolding buildStepStates_unfold by (simp only: Suc_eq_plus1 [symmetric] trajectory_step)
  then show ?thesis
    by (simp add: length_buildStepStates buildStepStates_hd)
qed

theorem trajectory_length_witness:
  "(1::nat) < length [JStr ''H'', JStr ''Z'']
   \<and> buildStepStates ZERO [JStr ''H'', JStr ''Z''] ! (1 + 1)
       = applyGate (buildStepStates ZERO [JStr ''H'', JStr ''Z''] ! 1) ([JStr ''H'', JStr ''Z''] ! 1)
   \<and> buildStepStates ZERO [JStr ''H'', JStr ''Z''] = [ZERO, PLUS, MINUS]"
  using trajectory_length [of ZERO "[JStr ''H'', JStr ''Z'']" 1]
  by (simp add: buildStepStates_def Let_def)

section \<open>The circuit view against the shared module\<close>

lemma App_applyGate_eq: "App_applyGate s g = applyGate s g"
  by (simp add: App_applyGate_def applyGate_def App_table_def gateTable_def)

lemma App_stepLoop_eq:
  "sts \<noteq> [] \<Longrightarrow> last sts = c \<Longrightarrow>
   App_stepLoop c gs sts = (last (stepLoop c gs sts), stepLoop c gs sts)"
  by (induction gs arbitrary: c sts) (simp_all add: Let_def App_applyGate_eq)

lemma App_buildStepStates_eq:
  "App_buildStepStates s0 seq = buildStepStates s0 seq @ [last (buildStepStates s0 seq)]"
  by (simp add: App_buildStepStates_def buildStepStates_def Let_def App_stepLoop_eq)

text \<open>
  C7. The circuit view's \<open>App_buildStepStates\<close> is the shared
  \<open>buildStepStates\<close> with its last element appended once more; so its length is
  the sequence length plus two and its last two elements are equal.
\<close>

theorem App_buildStepStates_refines:
  "App_buildStepStates s0 seq = buildStepStates s0 seq @ [last (buildStepStates s0 seq)]
   \<and> length (App_buildStepStates s0 seq) = length seq + 2
   \<and> App_buildStepStates s0 seq ! (length seq + 1) = App_buildStepStates s0 seq ! length seq"
proof -
  let ?t = "buildStepStates s0 seq"
  have len: "length ?t = length seq + 1" by (rule length_buildStepStates)
  then have ne: "?t \<noteq> []" by auto
  have eq: "App_buildStepStates s0 seq = ?t @ [last ?t]" by (rule App_buildStepStates_eq)
  have "(?t @ [last ?t]) ! (length seq + 1) = last ?t"
    using len by (simp add: nth_append)
  moreover have "(?t @ [last ?t]) ! length seq = last ?t"
    using len ne by (simp add: nth_append last_conv_nth)
  ultimately show ?thesis using eq len by simp
qed

lemma App_trajectory_absorbing:
  assumes "i < j" "j < length (App_buildStepStates s0 seq)"
    and "App_buildStepStates s0 seq ! i = DECOHERED"
  shows "App_buildStepStates s0 seq ! j = DECOHERED"
proof -
  let ?t = "buildStepStates s0 seq"
  have eq: "App_buildStepStates s0 seq = ?t @ [last ?t]" by (rule App_buildStepStates_eq)
  have len: "length ?t = length seq + 1" by (rule length_buildStepStates)
  then have ne: "?t \<noteq> []" by auto
  have i: "i < length ?t" "?t ! i = DECOHERED"
    using assms eq by (simp_all add: nth_append)
  have core: "?t ! k = DECOHERED" if "i < k" "k < length ?t" for k
    using that i(2) unfolding buildStepStates_unfold by (rule trajectory_absorbing)
  have last: "last ?t = DECOHERED"
  proof (cases "i = length ?t - 1")
    case True
    then show ?thesis using i(2) ne by (simp add: last_conv_nth)
  next
    case False
    then have "i < length ?t - 1" "length ?t - 1 < length ?t" using i(1) by simp_all
    then have "?t ! (length ?t - 1) = DECOHERED" by (rule core)
    then show ?thesis using ne by (simp add: last_conv_nth)
  qed
  show ?thesis
  proof (cases "j < length ?t")
    case True
    then show ?thesis using core [OF assms(1) True] eq by (simp add: nth_append)
  next
    case False
    then have "j = length ?t" using assms(2) eq by simp
    then show ?thesis using last eq by (simp add: nth_append)
  qed
qed

section \<open>Decoherence\<close>

text \<open>
  C2. DECOHERED is absorbing: whatever the gate (an empty slot and an unknown gate
  value included), applying it to DECOHERED gives DECOHERED; and in a trajectory
  built by \<open>buildStepStates\<close> (the shared one, and the circuit view's as well), once
  element \<open>i\<close> is DECOHERED every later element \<open>j\<close> is DECOHERED.
\<close>

theorem decohered_absorbing:
  "applyGate DECOHERED g = DECOHERED \<and>
   (i < j \<and> j < length (buildStepStates s0 seq) \<and> buildStepStates s0 seq ! i = DECOHERED
      \<longrightarrow> buildStepStates s0 seq ! j = DECOHERED) \<and>
   (i' < j' \<and> j' < length (App_buildStepStates s0 seq) \<and> App_buildStepStates s0 seq ! i' = DECOHERED
      \<longrightarrow> App_buildStepStates s0 seq ! j' = DECOHERED)"
proof -
  have "applyGate DECOHERED g = DECOHERED" by (simp add: applyGate_def)
  moreover have "buildStepStates s0 seq ! j = DECOHERED"
    if "i < j" "j < length (buildStepStates s0 seq)" "buildStepStates s0 seq ! i = DECOHERED"
    using that unfolding buildStepStates_unfold by (rule trajectory_absorbing)
  moreover have "App_buildStepStates s0 seq ! j' = DECOHERED"
    if "i' < j'" "j' < length (App_buildStepStates s0 seq)" "App_buildStepStates s0 seq ! i' = DECOHERED"
    using that by (rule App_trajectory_absorbing)
  ultimately show ?thesis by blast
qed

theorem decohered_absorbing_witness:
  "(1::nat) < 4 \<and> 4 < length (buildStepStates ONE [NOISE, JStr ''X'', JStr ''H'', JStr ''Z''])
   \<and> buildStepStates ONE [NOISE, JStr ''X'', JStr ''H'', JStr ''Z''] ! 1 = DECOHERED
   \<and> buildStepStates ONE [NOISE, JStr ''X'', JStr ''H'', JStr ''Z''] ! 4 = DECOHERED
   \<and> (4::nat) < 5 \<and> 5 < length (App_buildStepStates ONE [NOISE, JStr ''X'', JStr ''H'', JStr ''Z''])
   \<and> App_buildStepStates ONE [NOISE, JStr ''X'', JStr ''H'', JStr ''Z''] ! 4 = DECOHERED
   \<and> App_buildStepStates ONE [NOISE, JStr ''X'', JStr ''H'', JStr ''Z''] ! 5 = DECOHERED"
  using decohered_absorbing [of NOISE 1 4 ONE "[NOISE, JStr ''X'', JStr ''H'', JStr ''Z'']" 4 5]
  by (simp add: buildStepStates_def App_buildStepStates_def App_applyGate_eq Let_def)

section \<open>Measurement and the scenarios\<close>

text \<open>
  C4. Measurement contract: ZERO measures blue, ONE red, DECOHERED yellow and any
  value outside the five states blue, each leaving the generator as it was (no
  draw); PLUS and MINUS take exactly one draw, and the result is blue when that draw
  is below one half and red otherwise.
\<close>

theorem measureState_contract:
  "measureState ZERO r = (''blue'', r) \<and>
   measureState ONE r = (''red'', r) \<and>
   measureState DECOHERED r = (''yellow'', r) \<and>
   (other \<notin> {ZERO, ONE, PLUS, MINUS, DECOHERED} \<longrightarrow> measureState other r = (''blue'', r)) \<and>
   (sp \<in> {PLUS, MINUS} \<longrightarrow>
      measureState sp r =
        (if source r (drawn r) < 1 / 2 then ''blue'' else ''red'', r\<lparr>drawn := drawn r + 1\<rparr>))"
  by (auto simp: measureState_def Math_random_def)

theorem measureState_contract_witness:
  "JStr ''TILT'' \<notin> {ZERO, ONE, PLUS, MINUS, DECOHERED} \<and>
   measureState (JStr ''TILT'') \<lparr>source = (\<lambda>n. 3 / 4), drawn = 0\<rparr>
     = (''blue'', \<lparr>source = (\<lambda>n. 3 / 4), drawn = 0\<rparr>) \<and>
   PLUS \<in> {PLUS, MINUS} \<and>
   measureState PLUS \<lparr>source = (\<lambda>n. 3 / 4), drawn = 0\<rparr>
     = (''red'', \<lparr>source = (\<lambda>n. 3 / 4), drawn = 1\<rparr>)"
  using measureState_contract [of "\<lparr>source = (\<lambda>n. 3 / 4), drawn = 0\<rparr>" "JStr ''TILT''" PLUS]
  by simp

text \<open>
  C5. Scenario A: from ZERO, the sequence H, Z, H, empty slot gives the trajectory
  ZERO, PLUS, MINUS, ONE, ONE, and measuring the final state ONE gives red without
  touching the generator.
\<close>

theorem scenario_A:
  "buildStepStates ZERO [JStr ''H'', JStr ''Z'', JStr ''H'', JNull] = [ZERO, PLUS, MINUS, ONE, ONE]
   \<and> measureState ONE r = (''red'', r)"
  by (simp add: buildStepStates_def Let_def measureState_def)

section \<open>Out-of-domain input\<close>

text \<open>
  C8. Defensive default: for each of the states ZERO, ONE, PLUS, MINUS and every
  gate value that is present (truthy) but none of X, H, Z, NOISE, \<open>applyGate\<close>
  returns the state unchanged; an empty slot returns any state unchanged; and
  \<open>buildStepStates\<close> starts from ZERO for every initial value other than ONE.
  \<open>applyGate\<close> has no failing branch: its result is a value for every input.
\<close>

theorem defensive_default:
  "(s \<in> {ZERO, ONE, PLUS, MINUS} \<and> truthy g
      \<and> g \<notin> {JStr ''X'', JStr ''H'', JStr ''Z'', NOISE} \<longrightarrow> applyGate s g = s)
   \<and> applyGate s' JNull = s'
   \<and> (s0 \<noteq> ONE \<longrightarrow> buildStepStates s0 seq ! 0 = ZERO
         \<and> buildStepStates s0 seq = buildStepStates ZERO seq)"
proof -
  have "applyGate s g = s"
    if tg: "truthy g" and ng: "g \<notin> {JStr ''X'', JStr ''H'', JStr ''Z'', NOISE}"
  proof -
    obtain k where g: "g = JStr k" using tg by (cases g) auto
    then have "map_of gateTable (propertyKey g) = None"
      using ng by (simp add: gateTable_def)
    then show ?thesis by (simp add: applyGate_def tableLookup_def nullish_def)
  qed
  moreover have "applyGate s' JNull = s'" by (simp add: applyGate_def)
  moreover have "buildStepStates s0 seq ! 0 = ZERO" if "s0 \<noteq> ONE"
    using that by (simp add: buildStepStates_hd)
  moreover have "buildStepStates s0 seq = buildStepStates ZERO seq" if "s0 \<noteq> ONE"
    using that by (simp add: buildStepStates_def)
  ultimately show ?thesis by blast
qed

theorem defensive_default_witness:
  "PLUS \<in> {ZERO, ONE, PLUS, MINUS} \<and> truthy (JStr ''Q'')
   \<and> JStr ''Q'' \<notin> {JStr ''X'', JStr ''H'', JStr ''Z'', NOISE}
   \<and> applyGate PLUS (JStr ''Q'') = PLUS
   \<and> DECOHERED \<noteq> ONE
   \<and> buildStepStates DECOHERED [JStr ''X''] = [ZERO, ONE]"
  using defensive_default [of PLUS "JStr ''Q''" ZERO DECOHERED "[JStr ''X'']"]
  by (simp add: buildStepStates_def Let_def)

section \<open>Parsing and formatting\<close>

lemma padLoop_eq: "padLoop gs n = gs @ replicate (n - length gs) JNull"
proof (induction gs n rule: padLoop.induct)
  case (1 gs n)
  show ?case
  proof (cases "length gs < n")
    case True
    then have "padLoop gs n = padLoop (gs @ [JNull]) n" by (subst padLoop.simps) simp
    also have "\<dots> = (gs @ [JNull]) @ replicate (n - length (gs @ [JNull])) JNull"
      using True by (rule "1.IH")
    also have "\<dots> = gs @ replicate (Suc (n - Suc (length gs))) JNull" by simp
    also have "Suc (n - Suc (length gs)) = n - length gs" using True by simp
    finally show ?thesis .
  next
    case False
    then show ?thesis by (subst padLoop.simps) simp
  qed
qed

lemma gatesToString_Cons:
  "g \<in> populated \<Longrightarrow>
   gatesToString (g # gs) = (if g = NOISE then CHR ''N'' else hd (joinItem g)) # gatesToString gs"
  by (auto simp: gatesToString_def)

lemma gatesToString_Nil: "gatesToString [] = []"
  by (simp add: gatesToString_def)

lemma gatesToString_filter: "gatesToString (filter truthy gs) = gatesToString gs"
  by (simp add: gatesToString_def)

lemma toUpperChar_gate_letters:
  "toUpperChar CHR ''X'' = CHR ''X''" "toUpperChar CHR ''H'' = CHR ''H''"
  "toUpperChar CHR ''Z'' = CHR ''Z''" "toUpperChar CHR ''N'' = CHR ''N''"
  by (simp_all add: toUpperChar_def)

lemma toUpperCase_gatesToString:
  "set gs \<subseteq> populated \<Longrightarrow> toUpperCase (gatesToString gs) = gatesToString gs"
proof (induction gs)
  case Nil
  show ?case by (simp add: gatesToString_Nil toUpperCase_def)
next
  case (Cons g gs)
  then have g: "g \<in> populated" and IH: "toUpperCase (gatesToString gs) = gatesToString gs"
    by auto
  from g show ?case
    using IH by (auto simp: gatesToString_Cons toUpperCase_def toUpperChar_gate_letters)
qed

lemma parseLoop_gatesToString:
  "set gs \<subseteq> populated \<Longrightarrow> length acc + length gs \<le> n \<Longrightarrow>
   parseLoop (gatesToString gs) n acc = acc @ gs"
proof (induction gs arbitrary: acc)
  case Nil
  show ?case by (simp add: gatesToString_Nil)
next
  case (Cons g gs)
  then have g: "g \<in> populated" and gs: "set gs \<subseteq> populated"
    and len: "length acc < n" "length (acc @ [g]) + length gs \<le> n"
    by auto
  have IH: "parseLoop (gatesToString gs) n (acc @ [g]) = (acc @ [g]) @ gs"
    using gs len(2) by (rule Cons.IH)
  from g show ?case
    using IH len(1) by (auto simp: gatesToString_Cons validGates_def getProp_def)
qed

lemma trailing_nulls:
  assumes "set seq \<subseteq> insert JNull populated"
    and "\<forall>i j. i < j \<and> j < length seq \<and> seq ! i = JNull \<longrightarrow> seq ! j = JNull"
  shows "seq = filter truthy seq @ replicate (length seq - length (filter truthy seq)) JNull"
  using assms
proof (induction seq)
  case Nil
  show ?case by simp
next
  case (Cons g seq)
  show ?case
  proof (cases "g = JNull")
    case True
    have "y = JNull" if yin: "y \<in> set seq" for y
    proof -
      obtain k where k: "k < length seq" "seq ! k = y"
        using yin by (auto simp: in_set_conv_nth)
      have "0 < Suc k \<and> Suc k < length (g # seq) \<and> (g # seq) ! 0 = JNull"
        using k(1) True by simp
      then have "(g # seq) ! Suc k = JNull" using Cons.prems(2) by blast
      then show ?thesis using k(2) by simp
    qed
    then have all: "\<forall>y\<in>set seq. y = JNull" by blast
    then have "replicate (length seq) JNull = seq" by (rule replicate_length_same)
    moreover have "filter truthy seq = []" using all by (auto simp: filter_empty_conv)
    ultimately show ?thesis using True by simp
  next
    case False
    then have tg: "truthy g" using Cons.prems(1) by auto
    have sub: "set seq \<subseteq> insert JNull populated" using Cons.prems(1) by auto
    have tr: "\<forall>i j. i < j \<and> j < length seq \<and> seq ! i = JNull \<longrightarrow> seq ! j = JNull"
    proof (intro allI impI)
      fix i j assume a: "i < j \<and> j < length seq \<and> seq ! i = JNull"
      then have "Suc i < Suc j \<and> Suc j < length (g # seq) \<and> (g # seq) ! Suc i = JNull" by simp
      then have "(g # seq) ! Suc j = JNull" using Cons.prems(2) by blast
      then show "seq ! j = JNull" by simp
    qed
    have IH: "seq = filter truthy seq @ replicate (length seq - length (filter truthy seq)) JNull"
      using sub tr by (rule Cons.IH)
    have "length (filter truthy seq) \<le> length seq" by simp
    then have "Suc (length seq) - Suc (length (filter truthy seq)) = length seq - length (filter truthy seq)"
      by simp
    then show ?thesis using tg IH by simp
  qed
qed

text \<open>
  C6. Parse/format round trip: formatting the parse of "XHZN" (four slots) gives
  "XHZN"; "xHz!!Q" parses to X, H, Z and an empty slot; and a sequence over X, H, Z,
  NOISE and empty slots in which no empty slot comes before a populated one is
  reproduced exactly by parsing its format at its own length.
\<close>

theorem parse_format_roundtrip:
  "gatesToString (parseGateString (JStr ''XHZN'') 4) = ''XHZN''
   \<and> parseGateString (JStr ''xHz!!Q'') 4 = [JStr ''X'', JStr ''H'', JStr ''Z'', JNull]
   \<and> (set seq \<subseteq> {JStr ''X'', JStr ''H'', JStr ''Z'', NOISE, JNull}
        \<and> (\<forall>i j. i < j \<and> j < length seq \<and> seq ! i = JNull \<longrightarrow> seq ! j = JNull)
      \<longrightarrow> parseGateString (JStr (gatesToString seq)) (length seq) = seq)"
proof -
  have a: "gatesToString (parseGateString (JStr ''XHZN'') 4) = ''XHZN''"
    by (simp add: parseGateString_def toUpperCase_def toUpperChar_def validGates_def
        getProp_def gatesToString_def)
  have b: "parseGateString (JStr ''xHz!!Q'') 4 = [JStr ''X'', JStr ''H'', JStr ''Z'', JNull]"
    by (simp add: parseGateString_def toUpperCase_def toUpperChar_def validGates_def getProp_def)
  have c: "parseGateString (JStr (gatesToString seq)) (length seq) = seq"
    if sub: "set seq \<subseteq> {JStr ''X'', JStr ''H'', JStr ''Z'', NOISE, JNull}"
      and tr: "\<forall>i j. i < j \<and> j < length seq \<and> seq ! i = JNull \<longrightarrow> seq ! j = JNull"
  proof -
    let ?ps = "filter truthy seq"
    have sub': "set seq \<subseteq> insert JNull populated" using sub by auto
    have ps: "set ?ps \<subseteq> populated" using sub by auto
    have dec: "seq = ?ps @ replicate (length seq - length ?ps) JNull"
      using sub' tr by (rule trailing_nulls)
    have "gatesToString seq = gatesToString ?ps"
      by (rule gatesToString_filter [symmetric])
    then have "toUpperCase (gatesToString seq) = gatesToString ?ps"
      using toUpperCase_gatesToString [OF ps] by simp
    moreover have "parseLoop (gatesToString ?ps) (length seq) [] = [] @ ?ps"
      using ps by (rule parseLoop_gatesToString) simp
    ultimately have "parseGateString (JStr (gatesToString seq)) (length seq)
        = ?ps @ replicate (length seq - length ?ps) JNull"
      by (simp add: parseGateString_def padLoop_eq del: padLoop.simps)
    then show ?thesis using dec by simp
  qed
  have "set seq \<subseteq> {JStr ''X'', JStr ''H'', JStr ''Z'', NOISE, JNull}
        \<and> (\<forall>i j. i < j \<and> j < length seq \<and> seq ! i = JNull \<longrightarrow> seq ! j = JNull)
      \<longrightarrow> parseGateString (JStr (gatesToString seq)) (length seq) = seq"
    by (intro impI, elim conjE) (rule c)
  with a b show ?thesis by (intro conjI)
qed

theorem parse_format_roundtrip_witness:
  "set [JStr ''H'', NOISE, JNull, JNull] \<subseteq> {JStr ''X'', JStr ''H'', JStr ''Z'', NOISE, JNull}
   \<and> gatesToString [JStr ''H'', NOISE, JNull, JNull] = ''HN''
   \<and> parseGateString (JStr ''HN'') (length [JStr ''H'', NOISE, JNull, JNull])
       = [JStr ''H'', NOISE, JNull, JNull]"
proof -
  let ?S = "[JStr ''H'', NOISE, JNull, JNull]"
  have sub: "set ?S \<subseteq> {JStr ''X'', JStr ''H'', JStr ''Z'', NOISE, JNull}" by simp
  have tr: "\<forall>i j. i < j \<and> j < length ?S \<and> ?S ! i = JNull \<longrightarrow> ?S ! j = JNull"
  proof (intro allI impI)
    fix i j :: nat
    assume a: "i < j \<and> j < length ?S \<and> ?S ! i = JNull"
    then consider "i = 0" | "j = 2" | "j = 3" by (simp; arith)
    then show "?S ! j = JNull"
    proof cases
      case 1 then show ?thesis using a by simp
    next
      case 2 then show ?thesis by simp
    next
      case 3 then show ?thesis by simp
    qed
  qed
  have fmt: "gatesToString ?S = ''HN''"
    by (simp add: gatesToString_def)
  have "parseGateString (JStr (gatesToString ?S)) (length ?S) = ?S"
    using parse_format_roundtrip [of ?S] sub tr by (elim conjE impE) (intro conjI)
  then show ?thesis using sub fmt by simp
qed

section \<open>Random circuits\<close>

lemma source_randomGate: "source (snd (randomGate r)) = source r"
  by (simp add: randomGate_def Math_random_def)

lemma nat_index_cases: "0 \<le> i \<Longrightarrow> i < 5 \<Longrightarrow> nat i \<in> {0, 1, 2, 3, 4}" for i :: int
  by (simp; arith)

lemma randomGate_range:
  assumes "0 \<le> source r (drawn r)" "source r (drawn r) < 1"
  shows "fst (randomGate r) \<in> {JStr ''X'', JStr ''H'', JStr ''Z'', JNull}"
proof -
  define i where "i = \<lfloor>source r (drawn r) * 5\<rfloor>"
  have lo: "0 \<le> i" using assms(1) by (simp add: i_def)
  have "source r (drawn r) * 5 < 5" using assms(2) by simp
  then have hi: "i < 5" by (simp add: i_def floor_less_iff)
  have "nat i \<in> {0, 1, 2, 3, 4}" using lo hi by (rule nat_index_cases)
  then have "availableGates ! nat i \<in> {JStr ''X'', JStr ''H'', JStr ''Z'', JNull}"
    by (auto simp: availableGates_def)
  moreover have "fst (randomGate r) = availableGates ! nat i"
    using lo hi by (simp add: randomGate_def Math_random_def arrayGet_def availableGates_def i_def)
  ultimately show ?thesis by simp
qed

lemma randomGate_not_NOISE: "fst (randomGate r) \<noteq> NOISE"
proof -
  have "arrayGet availableGates i \<noteq> NOISE" for i
  proof (cases "0 \<le> i \<and> i < 5")
    case True
    then have "nat i \<in> {0, 1, 2, 3, 4}" using nat_index_cases [of i] by blast
    then have "availableGates ! nat i \<noteq> NOISE" by (auto simp: availableGates_def)
    then show ?thesis using True by (simp add: arrayGet_def availableGates_def)
  next
    case False
    then show ?thesis by (auto simp add: arrayGet_def availableGates_def)
  qed
  then show ?thesis by (simp add: randomGate_def Math_random_def)
qed



lemma generateRandomCircuit_Suc:
  "generateRandomCircuit (Suc n) r =
     (fst (randomGate r) # fst (generateRandomCircuit n (snd (randomGate r))),
      snd (generateRandomCircuit n (snd (randomGate r))))"
  by (simp add: Let_def split: prod.splits)

lemma length_generateRandomCircuit: "length (fst (generateRandomCircuit n r)) = n"
  by (induction n arbitrary: r) (simp_all add: generateRandomCircuit_Suc del: generateRandomCircuit.simps(2))

lemma generateRandomCircuit_range:
  "\<forall>k. 0 \<le> source r k \<and> source r k < 1 \<Longrightarrow>
   set (fst (generateRandomCircuit n r)) \<subseteq> {JStr ''X'', JStr ''H'', JStr ''Z'', JNull}"
proof (induction n arbitrary: r)
  case 0
  show ?case by simp
next
  case (Suc n)
  have "0 \<le> source r (drawn r)" "source r (drawn r) < 1"
    using Suc.prems by simp_all
  then have "fst (randomGate r) \<in> {JStr ''X'', JStr ''H'', JStr ''Z'', JNull}"
    by (rule randomGate_range)
  moreover have "set (fst (generateRandomCircuit n (snd (randomGate r))))
      \<subseteq> {JStr ''X'', JStr ''H'', JStr ''Z'', JNull}"
    using Suc.prems by (intro Suc.IH) (simp add: source_randomGate)
  ultimately show ?case
    by (simp add: generateRandomCircuit_Suc del: generateRandomCircuit.simps(2))
qed

lemma generateRandomCircuit_not_NOISE: "NOISE \<notin> set (fst (generateRandomCircuit n r))"
proof (induction n arbitrary: r)
  case 0
  show ?case by simp
next
  case (Suc n)
  have "NOISE \<noteq> fst (randomGate r)" using randomGate_not_NOISE [of r] by simp
  moreover have "NOISE \<notin> set (fst (generateRandomCircuit n (snd (randomGate r))))"
    by (rule Suc.IH)
  ultimately show ?case
    by (simp add: generateRandomCircuit_Suc del: generateRandomCircuit.simps(2))
qed

text \<open>
  C10. Whatever the draws, no slot of a sequence returned by
  \<open>generateRandomCircuit\<close> is NOISE; when every draw lies in the interval from 0
  (included) to 1 (excluded), as those of \<^verbatim>\<open>Math.random\<close> do, every slot is X, H, Z
  or null. The selection array has five entries, two of them null and none NOISE.
\<close>

theorem generateRandomCircuit_alphabet:
  "((\<forall>k. 0 \<le> source r k \<and> source r k < 1) \<longrightarrow>
      set (fst (generateRandomCircuit numGates r)) \<subseteq> {JStr ''X'', JStr ''H'', JStr ''Z'', JNull})
   \<and> NOISE \<notin> set (fst (generateRandomCircuit numGates r))
   \<and> NOISE \<notin> set availableGates
   \<and> length availableGates = 5
   \<and> length (filter (\<lambda>g. g = JNull) availableGates) = 2"
proof -
  have "NOISE \<notin> set availableGates" "length availableGates = 5"
    "length (filter (\<lambda>g. g = JNull) availableGates) = 2"
    by (simp_all add: availableGates_def)
  then show ?thesis
    using generateRandomCircuit_range [of r numGates] generateRandomCircuit_not_NOISE [of numGates r]
    by simp
qed

theorem generateRandomCircuit_alphabet_witness:
  "(\<forall>k. 0 \<le> source \<lparr>source = (\<lambda>n. if n < 4 then real n / 4 else 0), drawn = 0\<rparr> k
        \<and> source \<lparr>source = (\<lambda>n. if n < 4 then real n / 4 else 0), drawn = 0\<rparr> k < 1)
   \<and> set (fst (generateRandomCircuit 4 \<lparr>source = (\<lambda>n. if n < 4 then real n / 4 else 0), drawn = 0\<rparr>))
       \<subseteq> {JStr ''X'', JStr ''H'', JStr ''Z'', JNull}
   \<and> fst (generateRandomCircuit 4 \<lparr>source = (\<lambda>n. if n < 4 then real n / 4 else 0), drawn = 0\<rparr>)
       = [JStr ''X'', JStr ''H'', JStr ''Z'', JNull]"
proof -
  let ?r = "\<lparr>source = (\<lambda>n. if n < 4 then real n / 4 else 0), drawn = 0\<rparr>"
  have rng: "\<forall>k. 0 \<le> source ?r k \<and> source ?r k < 1" by simp
  have four: "(4::nat) = Suc (Suc (Suc (Suc 0)))" by simp
  have ev: "fst (generateRandomCircuit 4 ?r) = [JStr ''X'', JStr ''H'', JStr ''Z'', JNull]"
    unfolding four
    by (simp add: randomGate_def Math_random_def arrayGet_def availableGates_def)
  have sub: "set (fst (generateRandomCircuit 4 ?r)) \<subseteq> {JStr ''X'', JStr ''H'', JStr ''Z'', JNull}"
    by (rule mp [OF conjunct1 [OF generateRandomCircuit_alphabet]]) (rule rng)
  from rng sub ev show ?thesis by (intro conjI)
qed

section \<open>The fixture grid\<close>

lemma gates_buildColumnData: "gates (fst (buildColumnData gs r)) = gs"
  by (simp add: buildColumnData_def Let_def split: prod.splits)

lemma colLoop_step:
  assumes "col < sz"
  shows "colLoop col sz n rowData r =
    colLoop (Suc col) sz n
      (rowData @ [fst (buildColumnData (fst (generateRandomCircuit n r)) (snd (generateRandomCircuit n r)))])
      (snd (buildColumnData (fst (generateRandomCircuit n r)) (snd (generateRandomCircuit n r))))"
  using assms by (subst colLoop.simps) (simp add: Let_def split: prod.splits)

lemma colLoop_done: "\<not> col < sz \<Longrightarrow> colLoop col sz n rowData r = (rowData, r)"
  by (subst colLoop.simps) simp

lemma length_colLoop: "length (fst (colLoop col sz n rowData r)) = length rowData + (sz - col)"
proof (induction col sz n rowData r rule: colLoop.induct)
  case (1 col sz n rowData r)
  show ?case
  proof (cases "col < sz")
    case True
    obtain gs r1 where g: "(gs, r1) = generateRandomCircuit n r" by (metis surj_pair)
    obtain cd r2 where c: "(cd, r2) = buildColumnData gs r1" by (metis surj_pair)
    have "length (fst (colLoop (Suc col) sz n (rowData @ [cd]) r2)) = length (rowData @ [cd]) + (sz - Suc col)"
      by (rule "1.IH" [OF True refl g refl c])
    moreover have "colLoop col sz n rowData r = colLoop (Suc col) sz n (rowData @ [cd]) r2"
      using g [symmetric] c [symmetric] by (simp add: colLoop_step [OF True] del: colLoop.simps)
    ultimately show ?thesis using True by simp
  next
    case False
    then show ?thesis by (simp add: colLoop_done del: colLoop.simps)
  qed
qed

lemma gates_colLoop:
  "\<forall>cd\<in>set rowData. length (gates cd) = n \<Longrightarrow>
   \<forall>cd\<in>set (fst (colLoop col sz n rowData r)). length (gates cd) = n"
proof (induction col sz n rowData r rule: colLoop.induct)
  case (1 col sz n rowData r)
  show ?case
  proof (cases "col < sz")
    case True
    obtain gs r1 where g: "(gs, r1) = generateRandomCircuit n r" by (metis surj_pair)
    obtain cd r2 where c: "(cd, r2) = buildColumnData gs r1" by (metis surj_pair)
    have "gs = fst (generateRandomCircuit n r)" using g by (metis fst_conv)
    then have "length gs = n" by (simp add: length_generateRandomCircuit)
    moreover have "gates cd = gs" using c gates_buildColumnData [of gs r1] by (metis fst_conv)
    ultimately have "\<forall>x\<in>set (rowData @ [cd]). length (gates x) = n"
      using "1.prems" by simp
    then have "\<forall>x\<in>set (fst (colLoop (Suc col) sz n (rowData @ [cd]) r2)). length (gates x) = n"
      by (rule "1.IH" [OF True refl g refl c])
    moreover have "colLoop col sz n rowData r = colLoop (Suc col) sz n (rowData @ [cd]) r2"
      using g [symmetric] c [symmetric] by (simp add: colLoop_step [OF True] del: colLoop.simps)
    ultimately show ?thesis by simp
  next
    case False
    then show ?thesis using "1.prems" by (simp add: colLoop_done del: colLoop.simps)
  qed
qed

lemma cellRow_colLoop: "cellRow sz n (fst (colLoop 0 sz n [] r))"
  using gates_colLoop [of "[]" n 0 sz r] length_colLoop [of 0 sz n "[]" r]
  by (simp add: cellRow_def list_all_iff del: colLoop.simps)

lemma rowLoop_step:
  assumes "row < sz"
  shows "rowLoop row sz n grid r =
    rowLoop (Suc row) sz n (grid @ [fst (colLoop 0 sz n [] r)]) (snd (colLoop 0 sz n [] r))"
  using assms by (subst rowLoop.simps) (simp add: Let_def split: prod.splits del: colLoop.simps)

lemma rowLoop_done: "\<not> row < sz \<Longrightarrow> rowLoop row sz n grid r = (grid, r)"
  by (subst rowLoop.simps) simp

lemma length_rowLoop: "length (fst (rowLoop row sz n grid r)) = length grid + (sz - row)"
proof (induction row sz n grid r rule: rowLoop.induct)
  case (1 row sz n grid r)
  show ?case
  proof (cases "row < sz")
    case True
    obtain rowData r' where c: "(rowData, r') = colLoop 0 sz n [] r" by (metis surj_pair)
    have "length (fst (rowLoop (Suc row) sz n (grid @ [rowData]) r')) = length (grid @ [rowData]) + (sz - Suc row)"
      by (rule "1.IH" [OF True refl c])
    moreover have "rowLoop row sz n grid r = rowLoop (Suc row) sz n (grid @ [rowData]) r'"
      using c [symmetric] by (simp add: rowLoop_step [OF True] del: rowLoop.simps colLoop.simps)
    ultimately show ?thesis using True by simp
  next
    case False
    then show ?thesis by (simp add: rowLoop_done del: rowLoop.simps)
  qed
qed

lemma rows_rowLoop:
  "list_all (cellRow sz n) grid \<Longrightarrow> list_all (cellRow sz n) (fst (rowLoop row sz n grid r))"
proof (induction row sz n grid r rule: rowLoop.induct)
  case (1 row sz n grid r)
  show ?case
  proof (cases "row < sz")
    case True
    obtain rowData r' where c: "(rowData, r') = colLoop 0 sz n [] r" by (metis surj_pair)
    have "rowData = fst (colLoop 0 sz n [] r)" using c by (metis fst_conv)
    then have "cellRow sz n rowData" by (simp add: cellRow_colLoop del: colLoop.simps)
    then have "list_all (cellRow sz n) (grid @ [rowData])" using "1.prems" by simp
    then have "list_all (cellRow sz n) (fst (rowLoop (Suc row) sz n (grid @ [rowData]) r'))"
      by (rule "1.IH" [OF True refl c])
    moreover have "rowLoop row sz n grid r = rowLoop (Suc row) sz n (grid @ [rowData]) r'"
      using c [symmetric] by (simp add: rowLoop_step [OF True] del: rowLoop.simps colLoop.simps)
    ultimately show ?thesis by simp
  next
    case False
    then show ?thesis using "1.prems" by (simp add: rowLoop_done del: rowLoop.simps)
  qed
qed

text \<open>
  C9, as amended. \<open>generateFixtureGrid\<close> takes one grid size and the number of
  gates: the grid has \<open>sz\<close> rows of \<open>sz\<close> cells, and each cell is a column record
  whose \<open>gates\<close> field has \<open>numGates\<close> slots.
\<close>

theorem generateFixtureGrid_shape:
  "length (fst (generateFixtureGrid sz numGates r)) = sz
   \<and> (\<forall>row \<in> set (fst (generateFixtureGrid sz numGates r)).
        length row = sz \<and> (\<forall>cell \<in> set row. length (gates cell) = numGates))"
proof -
  have "length (fst (generateFixtureGrid sz numGates r)) = sz"
    by (simp add: generateFixtureGrid_def length_rowLoop del: rowLoop.simps)
  moreover have "list_all (cellRow sz numGates) (fst (generateFixtureGrid sz numGates r))"
    unfolding generateFixtureGrid_def by (rule rows_rowLoop) simp
  ultimately show ?thesis by (simp add: list_all_iff cellRow_def)
qed

lemma fixture_grid_example:
  "fst (generateFixtureGrid 2 3 \<lparr>source = (\<lambda>n. if n < 4 then real n / 4 else 0), drawn = 0\<rparr>) =
     [[\<lparr>gates = [JStr ''X'', JStr ''H'', JStr ''Z''], states = [ZERO, ONE, MINUS, PLUS], finalState = PLUS, measurement = ''red''\<rparr>,
       \<lparr>gates = [JStr ''X'', JStr ''X'', JStr ''X''], states = [ZERO, ONE, ZERO, ONE], finalState = ONE, measurement = ''red''\<rparr>],
      [\<lparr>gates = [JStr ''X'', JStr ''X'', JStr ''X''], states = [ZERO, ONE, ZERO, ONE], finalState = ONE, measurement = ''red''\<rparr>,
       \<lparr>gates = [JStr ''X'', JStr ''X'', JStr ''X''], states = [ZERO, ONE, ZERO, ONE], finalState = ONE, measurement = ''red''\<rparr>]]"
  by (simp add: generateFixtureGrid_def eval_nat_numeral randomGate_def Math_random_def arrayGet_def
      availableGates_def buildColumnData_def buildStepStates_def Let_def measureState_def)

theorem generateFixtureGrid_shape_witness:
  "length (fst (generateFixtureGrid 2 3 \<lparr>source = (\<lambda>n. if n < 4 then real n / 4 else 0), drawn = 0\<rparr>)) = 2
   \<and> map length (fst (generateFixtureGrid 2 3 \<lparr>source = (\<lambda>n. if n < 4 then real n / 4 else 0), drawn = 0\<rparr>)) = [2, 2]
   \<and> map (map (length \<circ> gates)) (fst (generateFixtureGrid 2 3 \<lparr>source = (\<lambda>n. if n < 4 then real n / 4 else 0), drawn = 0\<rparr>)) = [[3, 3], [3, 3]]"
proof -
  have "length (fst (generateFixtureGrid 2 3 \<lparr>source = (\<lambda>n. if n < 4 then real n / 4 else 0), drawn = 0\<rparr>)) = 2"
    by (rule conjunct1 [OF generateFixtureGrid_shape])
  then show ?thesis by (simp add: fixture_grid_example)
qed

text \<open>
  C9 as stated speaks of separate row and column counts and of cells that are gate
  sequences. The call \<^verbatim>\<open>generateFixtureGrid(2, 3, 4)\<close> binds \<^verbatim>\<open>size = 2\<close> and
  \<^verbatim>\<open>numGates = 3\<close> and drops the third argument: the result does not have 2 rows
  of 3 cells with 4 slots each (it has 2 rows of 2 cells with 3 slots each).
\<close>

theorem generateFixtureGrid_rows_cols_counterexample:
  "\<not> (length (fst (generateFixtureGrid 2 3 \<lparr>source = (\<lambda>n. if n < 4 then real n / 4 else 0), drawn = 0\<rparr>)) = 2
      \<and> map length (fst (generateFixtureGrid 2 3 \<lparr>source = (\<lambda>n. if n < 4 then real n / 4 else 0), drawn = 0\<rparr>)) = [3, 3]
      \<and> map (map (length \<circ> gates)) (fst (generateFixtureGrid 2 3 \<lparr>source = (\<lambda>n. if n < 4 then real n / 4 else 0), drawn = 0\<rparr>)) = [[4, 4, 4], [4, 4, 4]])"
  by (simp add: fixture_grid_example)

end
